theory Spec2Isabelle
  imports Main
begin

section \<open>Post-processing helpers of the cellular-automata experiments (my_utils.py)\<close>

text \<open>
  The module has three functions: \<open>state_to_binary_string\<close> (the encoder of an initial
  state), \<open>group_duplicates\<close> (the grouper of rules with identical frequency vectors) and
  \<open>create_summary_table\<close> (one summary row per initial state). Frequency vectors are
  lists over an arbitrary element type \<open>'a\<close> compared with exact equality (the values
  of the numbers; a floating-point NaN, which Python does not hold equal to itself, is
  outside the model); rule numbers and list positions are natural numbers; the digits of
  an initial state are Python integers (\<open>int\<close>).
\<close>

subsection \<open>Python built-ins the module calls\<close>

text \<open>
  \<open>str\<close> on an integer is its decimal numeral, with a leading minus sign for a negative
  number.
\<close>

definition digit_char :: "nat \<Rightarrow> char" where
  "digit_char d = ''0123456789'' ! d"

fun str_nat :: "nat \<Rightarrow> string" where
  "str_nat n = (if n < 10 then [digit_char n] else str_nat (n div 10) @ [digit_char (n mod 10)])"

declare str_nat.simps [simp del]

definition str :: "int \<Rightarrow> string" where
  "str i = (if i < 0 then CHR ''-'' # str_nat (nat (- i)) else str_nat (nat i))"

text \<open>\<open>sep.join(strings)\<close>: the strings in order, with \<open>sep\<close> between neighbours.\<close>

fun join :: "string \<Rightarrow> string list \<Rightarrow> string" where
  "join sep [] = []"
| "join sep [s] = s"
| "join sep (s # t # ss) = s @ sep @ join sep (t # ss)"

text \<open>
  \<open>tuple(vec)\<close> copies the elements of \<open>vec\<close>, in order, into an immutable sequence; two
  tuples are equal when they have the same length and equal elements at every position,
  which is equality of lists.
\<close>

definition tuple :: "'a list \<Rightarrow> 'a list" where
  "tuple vec = vec"

text \<open>
  A Python \<open>dict\<close> iterates in the order its keys were first inserted, so it is modelled
  as an association list in insertion order. \<open>d.setdefault(key, dflt)\<close> inserts
  \<open>key\<close> with \<open>dflt\<close> at the end when \<open>key\<close> is absent and leaves \<open>d\<close> as it is
  otherwise; it returns the value stored under \<open>key\<close>, and \<open>.append(x)\<close> on that value
  extends the list stored in the dictionary (\<open>append_at\<close>). \<open>d.values()\<close> lists the
  stored values in key order. Python's \<open>enumerate(xs, start=n)\<close> is \<^const>\<open>enumerate\<close>.
\<close>

type_synonym ('k, 'v) dict = "('k \<times> 'v) list"

definition setdefault :: "('k, 'v) dict \<Rightarrow> 'k \<Rightarrow> 'v \<Rightarrow> ('k, 'v) dict" where
  "setdefault d key dflt = (case map_of d key of None \<Rightarrow> d @ [(key, dflt)] | Some v \<Rightarrow> d)"

definition append_at :: "('k, 'v list) dict \<Rightarrow> 'k \<Rightarrow> 'v \<Rightarrow> ('k, 'v list) dict" where
  "append_at d key x = map (\<lambda>(k, l). if k = key then (k, l @ [x]) else (k, l)) d"

definition dict_values :: "('k, 'v) dict \<Rightarrow> 'v list" where
  "dict_values d = map snd d"

subsection \<open>The encoder: \<open>state_to_binary_string\<close>\<close>

definition state_to_binary_string :: "int list \<Rightarrow> string" where
  "state_to_binary_string state = join '''' (map str state)"

subsection \<open>The grouper: \<open>group_duplicates\<close>\<close>

text \<open>
  The loop body \<open>groups.setdefault(key, []).append(rule_num)\<close> run over the enumerated
  vectors, then the comprehension that keeps the groups with more than one rule.
\<close>

fun group_loop :: "('a list, nat list) dict \<Rightarrow> (nat \<times> 'a list) list \<Rightarrow> ('a list, nat list) dict" where
  "group_loop groups [] = groups"
| "group_loop groups ((rule_num, vec) # rest) =
     (let key = tuple vec
      in group_loop (append_at (setdefault groups key []) key rule_num) rest)"

definition group_duplicates :: "'a list list \<Rightarrow> nat list list" where
  "group_duplicates freq_vectors =
     (let groups = group_loop [] (enumerate 1 freq_vectors)
      in [group \<leftarrow> dict_values groups. length group > 1])"

subsection \<open>The grouping the specification describes\<close>

text \<open>
  The specification's words, independent of the loop: every vector gets the 1-based rule
  index of its position; the bucket of a key holds the rule indices of the vectors equal
  to it (\<open>spec_rule_indices\<close>); the keys are taken in the order in which they are first
  encountered (\<open>spec_first_seen\<close>); only the buckets with at least two members are
  returned.
\<close>

fun spec_first_seen :: "'a list \<Rightarrow> 'a list" where
  "spec_first_seen [] = []"
| "spec_first_seen (x # xs) = x # filter (\<lambda>y. y \<noteq> x) (spec_first_seen xs)"

definition spec_rule_indices :: "'a list \<Rightarrow> 'a \<Rightarrow> nat list" where
  "spec_rule_indices vs k = [i \<leftarrow> [1..<Suc (length vs)]. vs ! (i - 1) = k]"

definition spec_group_duplicates :: "'a list list \<Rightarrow> nat list list" where
  "spec_group_duplicates vs =
     [g \<leftarrow> map (spec_rule_indices vs) (spec_first_seen vs). 2 \<le> length g]"

subsection \<open>The grouper as a run of the loop\<close>

text \<open>
  The same function read operationally: one rule per way the \<open>for\<close> loop can proceed
  (its sequence is exhausted, or it executes the body on the next pair), and one rule for
  the function, which runs the loop from the empty dictionary and returns the
  comprehension over the final dictionary.
\<close>

inductive group_loop_run ::
  "('a list, nat list) dict \<Rightarrow> (nat \<times> 'a list) list \<Rightarrow> ('a list, nat list) dict \<Rightarrow> bool" where
  loop_exit: "group_loop_run groups [] groups"
| loop_body: "\<lbrakk>key = tuple vec;
      group_loop_run (append_at (setdefault groups key []) key rule_num) rest final\<rbrakk>
     \<Longrightarrow> group_loop_run groups ((rule_num, vec) # rest) final"

inductive group_duplicates_run :: "'a list list \<Rightarrow> nat list list \<Rightarrow> bool" where
  run_return: "\<lbrakk>group_loop_run [] (enumerate 1 freq_vectors) groups;
      result = [group \<leftarrow> dict_values groups. length group > 1]\<rbrakk>
     \<Longrightarrow> group_duplicates_run freq_vectors result"

code_pred group_loop_run .

code_pred group_duplicates_run .

subsection \<open>The summary table: \<open>create_summary_table\<close>\<close>

text \<open>
  Indexing a list beyond its end raises \<open>IndexError\<close>; the function has no handler, so
  the exception ends the call. Each element of \<open>all_results\<close> is a dictionary with the
  key \<open>"frequency_vectors"\<close> (a record field; further keys are the record's extension).
  A row of the table is the dictionary the loop appends to \<open>stats\<close>, with the columns
  \<open>"Initial State"\<close>, \<open>"Group Count"\<close> and \<open>"Duplicate Groups"\<close>, and the data frame is
  the list of its rows in order.

  \<open>pd.set_option\<close> writes the process-wide options of pandas, the only state outside the
  arguments the function touches: the options are threaded through the function as a map
  from option names to values (\<open>"max_colwidth"\<close> is the name as the source writes it;
  pandas resolves it to \<open>display.max_colwidth\<close>). The statement stands after the loop,
  so a call that raises in the loop never reaches it.
\<close>

datatype py_error = IndexError

record 'a result =
  frequency_vectors :: "'a list list"

record summary_row =
  Initial_State :: string
  Group_Count :: nat
  Duplicate_Groups :: "nat list list"

type_synonym pd_options = "string \<rightharpoonup> int"

definition pd_set_option :: "pd_options \<Rightarrow> string \<Rightarrow> int \<Rightarrow> pd_options" where
  "pd_set_option opts pat v = opts(pat \<mapsto> v)"

definition DataFrame :: "summary_row list \<Rightarrow> summary_row list" where
  "DataFrame stats = stats"

fun summary_loop ::
  "('a, 'b) result_scheme list \<Rightarrow> (nat \<times> int list) list \<Rightarrow> summary_row list
   \<Rightarrow> py_error + summary_row list" where
  "summary_loop all_results [] stats = Inr stats"
| "summary_loop all_results ((idx, init) # rest) stats =
     (if idx < length all_results then
        (let freq_vectors = frequency_vectors (all_results ! idx);
             dup_groups = group_duplicates freq_vectors
         in summary_loop all_results rest
              (stats @ [\<lparr>Initial_State = state_to_binary_string init,
                         Group_Count = length dup_groups,
                         Duplicate_Groups = dup_groups\<rparr>]))
      else Inl IndexError)"

definition create_summary_table ::
  "int list list \<Rightarrow> ('a, 'b) result_scheme list \<Rightarrow> pd_options
   \<Rightarrow> (py_error + summary_row list) \<times> pd_options" where
  "create_summary_table init_states all_results opts =
     (case summary_loop all_results (enumerate 0 init_states) [] of
        Inl err \<Rightarrow> (Inl err, opts)
      | Inr stats \<Rightarrow> (Inr (DataFrame stats), pd_set_option opts ''max_colwidth'' 50))"

text \<open>
  The specification's summary record of one initial state: the label is the encoded
  state, the groups are the duplicate groups of the state's frequency vectors, the group
  count is their number.
\<close>

definition spec_summary_record :: "int list \<Rightarrow> 'a list list \<Rightarrow> summary_row" where
  "spec_summary_record init vectors =
     \<lparr>Initial_State = state_to_binary_string init,
      Group_Count = length (group_duplicates vectors),
      Duplicate_Groups = group_duplicates vectors\<rparr>"

section \<open>Properties of the grouper\<close>

subsection \<open>First-seen keys and buckets\<close>

lemma set_spec_first_seen: "set (spec_first_seen xs) = set xs"
  by (induction xs) auto

lemma distinct_spec_first_seen: "distinct (spec_first_seen xs)"
  by (induction xs) (auto simp: set_spec_first_seen)

lemma spec_first_seen_snoc:
  "spec_first_seen (xs @ [v]) =
     (if v \<in> set xs then spec_first_seen xs else spec_first_seen xs @ [v])"
  by (induction xs) (auto simp: set_spec_first_seen)

lemma spec_rule_indices_snoc:
  "spec_rule_indices (vs @ [v]) k =
     spec_rule_indices vs k @ (if v = k then [Suc (length vs)] else [])"
proof -
  have "[i \<leftarrow> [1..<Suc (length vs)]. (vs @ [v]) ! (i - 1) = k] =
        [i \<leftarrow> [1..<Suc (length vs)]. vs ! (i - 1) = k]"
    by (rule filter_cong) (auto simp: nth_append)
  then show ?thesis
    by (simp add: spec_rule_indices_def)
qed

lemma spec_rule_indices_empty: "k \<notin> set vs \<Longrightarrow> spec_rule_indices vs k = []"
  by (auto simp: spec_rule_indices_def filter_empty_conv)

subsection \<open>The loop computes the buckets in first-seen order\<close>

lemma group_loop_append:
  "group_loop groups (xs @ ys) = group_loop (group_loop groups xs) ys"
  by (induction groups xs rule: group_loop.induct) (simp_all add: Let_def)

lemma setdefault_map_present:
  "v \<in> set ks \<Longrightarrow> setdefault (map (\<lambda>k. (k, f k)) ks) v d = map (\<lambda>k. (k, f k)) ks"
  by (simp add: setdefault_def map_of_map_restrict)

lemma setdefault_map_absent:
  "v \<notin> set ks \<Longrightarrow>
   setdefault (map (\<lambda>k. (k, f k)) ks) v d = map (\<lambda>k. (k, f k)) ks @ [(v, d)]"
  by (simp add: setdefault_def map_of_map_restrict)

lemma append_at_map:
  "append_at (map (\<lambda>k. (k, f k)) ks) v n =
     map (\<lambda>k. (k, if k = v then f k @ [n] else f k)) ks"
  by (simp add: append_at_def)

lemma group_loop_char:
  "group_loop [] (enumerate (Suc 0) vs) =
     map (\<lambda>k. (k, spec_rule_indices vs k)) (spec_first_seen vs)"
proof (induction vs rule: rev_induct)
  case Nil
  then show ?case by simp
next
  case (snoc v vs)
  let ?f = "spec_rule_indices vs"
  let ?ks = "spec_first_seen vs"
  have step: "group_loop [] (enumerate (Suc 0) (vs @ [v])) =
      append_at (setdefault (map (\<lambda>k. (k, ?f k)) ?ks) v []) v (Suc (length vs))"
    by (simp add: enumerate_append_eq group_loop_append snoc.IH tuple_def)
  show ?case
  proof (cases "v \<in> set vs")
    case True
    then show ?thesis
      unfolding step
      by (simp add: setdefault_map_present set_spec_first_seen append_at_map
          spec_first_seen_snoc spec_rule_indices_snoc)
  next
    case False
    then show ?thesis
      unfolding step
      by (simp add: setdefault_map_absent set_spec_first_seen append_at_def
          spec_first_seen_snoc spec_rule_indices_snoc spec_rule_indices_empty)
  qed
qed

lemma group_duplicates_char: "group_duplicates vs = spec_group_duplicates vs"
proof -
  have "(\<lambda>g :: nat list. 1 < length g) = (\<lambda>g. 2 \<le> length g)"
    by auto
  then show ?thesis
    by (simp add: group_duplicates_def spec_group_duplicates_def group_loop_char
        dict_values_def comp_def)
qed

text \<open>
  Claim C1: \<open>group_duplicates\<close> gives each vector the 1-based rule index of its position,
  buckets the indices by exact, order-sensitive equality of the vectors, and returns
  exactly the buckets with at least two members, in the order in which their keys are
  first encountered; singleton buckets are dropped.
\<close>

theorem group_duplicates_refines_spec:
  "group_duplicates V = spec_group_duplicates V"
  by (rule group_duplicates_char)

subsection \<open>Evaluating the grouper\<close>

text \<open>
  Claim C4: \<open>group_duplicates([])\<close> is \<open>[]\<close>, \<open>group_duplicates([[1,0],[1,0],[0,1]])\<close> is
  \<open>[[1,2]]\<close> and \<open>group_duplicates([[1,0],[0,1],[1,1]])\<close> is \<open>[]\<close>.
\<close>

theorem group_duplicates_examples:
  "group_duplicates ([] :: int list list) = []
   \<and> group_duplicates [[1, 0], [1, 0], [0, 1 :: int]] = [[1, 2]]
   \<and> group_duplicates [[1, 0], [0, 1], [1, 1 :: int]] = []"
  by (simp add: group_duplicates_def setdefault_def append_at_def dict_values_def tuple_def)

subsection \<open>Members of a bucket\<close>

lemma set_spec_rule_indices:
  "set (spec_rule_indices vs k) = {Suc i | i. i < length vs \<and> vs ! i = k}"
proof -
  have "n \<in> set (spec_rule_indices vs k) \<longleftrightarrow>
          (\<exists>i. n = Suc i \<and> i < length vs \<and> vs ! i = k)" for n
    by (cases n) (auto simp: spec_rule_indices_def)
  then show ?thesis
    by blast
qed

lemma Suc_in_spec_rule_indices:
  "Suc i \<in> set (spec_rule_indices vs k) \<longleftrightarrow> i < length vs \<and> vs ! i = k"
  by (simp add: set_spec_rule_indices)

lemma sorted_spec_rule_indices: "sorted_wrt (<) (spec_rule_indices vs k)"
  unfolding spec_rule_indices_def
  by (rule sorted_wrt_filter) (rule sorted_wrt_upt)

lemma distinct_spec_rule_indices: "distinct (spec_rule_indices vs k)"
  by (simp add: spec_rule_indices_def)

lemma in_group_duplicates_iff:
  "g \<in> set (group_duplicates V) \<longleftrightarrow>
     (\<exists>k \<in> set V. g = spec_rule_indices V k \<and> 2 \<le> length g)"
  by (auto simp: group_duplicates_char spec_group_duplicates_def set_spec_first_seen)

lemma spec_rule_indices_disjoint:
  "k \<noteq> k' \<Longrightarrow> set (spec_rule_indices vs k) \<inter> set (spec_rule_indices vs k') = {}"
  by (auto simp: set_spec_rule_indices)

lemma spec_rule_indices_inj:
  assumes "spec_rule_indices vs k = spec_rule_indices vs k'" and "spec_rule_indices vs k \<noteq> []"
  shows "k = k'"
proof -
  from assms(2) obtain n where n: "n \<in> set (spec_rule_indices vs k)"
    by (cases "spec_rule_indices vs k") auto
  with assms(1) have "n \<in> set (spec_rule_indices vs k')"
    by simp
  with n show ?thesis
    by (auto simp: set_spec_rule_indices)
qed

lemma distinct_concat_group_duplicates: "distinct (concat (group_duplicates V))"
proof (rule distinct_concat)
  have "distinct (map (spec_rule_indices V)
          (filter (\<lambda>k. 2 \<le> length (spec_rule_indices V k)) (spec_first_seen V)))"
  proof (rule distinct_map [THEN iffD2], intro conjI inj_onI)
    show "distinct (filter (\<lambda>k. 2 \<le> length (spec_rule_indices V k)) (spec_first_seen V))"
      by (simp add: distinct_spec_first_seen)
  next
    fix k k'
    assume "k \<in> set (filter (\<lambda>k. 2 \<le> length (spec_rule_indices V k)) (spec_first_seen V))"
      and "spec_rule_indices V k = spec_rule_indices V k'"
    then show "k = k'"
      by (intro spec_rule_indices_inj [of V k k']) auto
  qed
  then show "distinct (group_duplicates V)"
    by (simp add: group_duplicates_char spec_group_duplicates_def filter_map comp_def)
next
  fix g assume "g \<in> set (group_duplicates V)"
  then show "distinct g"
    by (auto simp: in_group_duplicates_iff distinct_spec_rule_indices)
next
  fix g h assume "g \<in> set (group_duplicates V)" "h \<in> set (group_duplicates V)" "g \<noteq> h"
  then show "set g \<inter> set h = {}"
    by (auto simp: in_group_duplicates_iff set_spec_rule_indices)
qed

subsection \<open>Groups partition a subset of the rule indices\<close>

text \<open>
  Claim C3: every rule index in a group returned by \<open>group_duplicates\<close> lies between
  1 and the number of vectors, no index occurs twice in a group or in two groups (the
  concatenation of the groups has no repetition), and every group has at least two
  members.
\<close>

theorem group_duplicates_partition:
  "(\<forall>g \<in> set (group_duplicates V).
      2 \<le> length g \<and> (\<forall>i \<in> set g. 1 \<le> i \<and> i \<le> length V))
   \<and> distinct (concat (group_duplicates V))"
proof (intro conjI ballI)
  fix g assume "g \<in> set (group_duplicates V)"
  then show "2 \<le> length g"
    by (auto simp: in_group_duplicates_iff)
next
  fix g i assume "g \<in> set (group_duplicates V)" "i \<in> set g"
  then show "1 \<le> i" "i \<le> length V"
    by (auto simp: in_group_duplicates_iff set_spec_rule_indices)
next
  show "distinct (concat (group_duplicates V))"
    by (rule distinct_concat_group_duplicates)
qed

theorem group_duplicates_partition_witness:
  "group_duplicates [[1, 0], [0, 1 :: int], [1, 0], [0, 1], [2]] = [[1, 3], [2, 4]]
   \<and> 2 \<le> length [1, 3 :: nat]
   \<and> 1 \<le> (3 :: nat) \<and> 3 \<le> length [[1, 0], [0, 1 :: int], [1, 0], [0, 1], [2]]
   \<and> distinct (concat (group_duplicates [[1, 0], [0, 1 :: int], [1, 0], [0, 1], [2]]))"
proof -
  let ?V = "[[1, 0], [0, 1 :: int], [1, 0], [0, 1], [2]]"
  note inst = group_duplicates_partition [of ?V]
  have ev: "group_duplicates ?V = [[1, 3], [2, 4]]"
    by code_simp
  then have mem: "[1, 3] \<in> set (group_duplicates ?V)"
    by simp
  from inst mem
  have g: "2 \<le> length [1, 3 :: nat] \<and> (\<forall>i \<in> set [1, 3 :: nat]. 1 \<le> i \<and> i \<le> length ?V)"
    by blast
  then have "1 \<le> (3 :: nat) \<and> 3 \<le> length ?V"
    by (meson list.set_intros)
  moreover from inst have "distinct (concat (group_duplicates ?V))"
    by (rule conjunct2)
  ultimately show ?thesis
    using ev g by blast
qed

subsection \<open>Which vectors share a group\<close>

text \<open>
  Claim C5: the vectors at two different positions are put in the same group exactly
  when they have the same length and equal elements at every position (exact equality,
  no tolerance); in particular vectors of different lengths never share a group. The
  grouper is a total function on collections of vectors, ragged ones included: its body
  has no indexing, lookup or conversion that can fail on them, so there is no exception
  to model. Positions \<open>i\<close> and \<open>j\<close> count from 0; their rule indices are \<open>Suc i\<close>
  and \<open>Suc j\<close>.
\<close>

theorem group_duplicates_same_group_iff:
  assumes "i < length V" and "j < length V" and "i \<noteq> j"
  shows "((\<exists>g \<in> set (group_duplicates V). Suc i \<in> set g \<and> Suc j \<in> set g) \<longleftrightarrow>
          length (V ! i) = length (V ! j) \<and> (\<forall>n < length (V ! i). V ! i ! n = V ! j ! n))
       \<and> (length (V ! i) \<noteq> length (V ! j) \<longrightarrow>
          \<not> (\<exists>g \<in> set (group_duplicates V). Suc i \<in> set g \<and> Suc j \<in> set g))"
proof -
  have same: "(\<exists>g \<in> set (group_duplicates V). Suc i \<in> set g \<and> Suc j \<in> set g) \<longleftrightarrow> V ! i = V ! j"
  proof
    assume "\<exists>g \<in> set (group_duplicates V). Suc i \<in> set g \<and> Suc j \<in> set g"
    then show "V ! i = V ! j"
      by (auto simp: in_group_duplicates_iff Suc_in_spec_rule_indices)
  next
    assume eq: "V ! i = V ! j"
    let ?g = "spec_rule_indices V (V ! i)"
    have mem: "Suc i \<in> set ?g" "Suc j \<in> set ?g"
      using assms eq by (simp_all add: Suc_in_spec_rule_indices)
    then have "{Suc i, Suc j} \<subseteq> set ?g"
      by simp
    then have "card {Suc i, Suc j} \<le> card (set ?g)"
      by (intro card_mono) simp_all
    also have "card (set ?g) = length ?g"
      by (rule distinct_card) (rule distinct_spec_rule_indices)
    finally have "2 \<le> length ?g"
      using \<open>i \<noteq> j\<close> by simp
    moreover have "V ! i \<in> set V"
      using assms by simp
    ultimately have "?g \<in> set (group_duplicates V)"
      by (auto simp: in_group_duplicates_iff)
    with mem show "\<exists>g \<in> set (group_duplicates V). Suc i \<in> set g \<and> Suc j \<in> set g"
      by blast
  qed
  show ?thesis
    unfolding same by (auto simp: list_eq_iff_nth_eq)
qed

theorem group_duplicates_same_group_iff_witness:
  "(0 :: nat) < length [[1, 0], [1 :: int], [1, 0]] \<and> (2 :: nat) < length [[1, 0], [1 :: int], [1, 0]]
   \<and> (0 :: nat) \<noteq> 2
   \<and> (\<exists>g \<in> set (group_duplicates [[1, 0], [1 :: int], [1, 0]]). Suc 0 \<in> set g \<and> Suc 2 \<in> set g)
   \<and> (1 :: nat) < length [[1, 0], [1 :: int], [1, 0]] \<and> (0 :: nat) \<noteq> 1
   \<and> \<not> (\<exists>g \<in> set (group_duplicates [[1, 0], [1 :: int], [1, 0]]). Suc 0 \<in> set g \<and> Suc 1 \<in> set g)"
proof -
  let ?V = "[[1, 0], [1 :: int], [1, 0]]"
  have h: "(0 :: nat) < length ?V" "(2 :: nat) < length ?V" "(0 :: nat) \<noteq> 2"
    by simp_all
  have h': "(0 :: nat) < length ?V" "(1 :: nat) < length ?V" "(0 :: nat) \<noteq> 1"
    by simp_all
  have "length (?V ! 0) = length (?V ! 2) \<and> (\<forall>n < length (?V ! 0). ?V ! 0 ! n = ?V ! 2 ! n)"
    by simp
  with group_duplicates_same_group_iff [OF h]
  have same: "\<exists>g \<in> set (group_duplicates ?V). Suc 0 \<in> set g \<and> Suc 2 \<in> set g"
    by blast
  have "length (?V ! 0) \<noteq> length (?V ! 1)"
    by simp
  with group_duplicates_same_group_iff [OF h']
  have "\<not> (\<exists>g \<in> set (group_duplicates ?V). Suc 0 \<in> set g \<and> Suc 1 \<in> set g)"
    by blast
  with same h h' show ?thesis
    by blast
qed

subsection \<open>Order inside a group\<close>

text \<open>
  Claim C10: in every group returned by \<open>group_duplicates\<close> the rule indices are
  strictly increasing, and the first element of the group is the position of the earliest
  occurrence of the group's vector: no earlier position holds the same vector.
\<close>

theorem group_duplicates_increasing:
  "\<forall>g \<in> set (group_duplicates V).
     sorted_wrt (<) g \<and>
     (\<exists>i < length V. hd g = Suc i \<and> (\<forall>j < i. V ! j \<noteq> V ! i))"
proof
  fix g assume "g \<in> set (group_duplicates V)"
  then obtain k where g: "g = spec_rule_indices V k" and len: "2 \<le> length g"
    by (auto simp: in_group_duplicates_iff)
  have sorted: "sorted_wrt (<) g"
    by (simp add: g sorted_spec_rule_indices)
  from len obtain n ns where cons: "g = n # ns"
    by (cases g) auto
  then have "n \<in> set (spec_rule_indices V k)"
    using g by simp
  then obtain i where i: "n = Suc i" "i < length V" "V ! i = k"
    by (auto simp: set_spec_rule_indices)
  have "V ! j \<noteq> V ! i" if "j < i" for j
  proof
    assume "V ! j = V ! i"
    with that i have "Suc j \<in> set g"
      by (simp add: g Suc_in_spec_rule_indices)
    with cons sorted have "n \<le> Suc j"
      by auto
    with i that show False
      by simp
  qed
  with i cons sorted
  show "sorted_wrt (<) g \<and> (\<exists>i < length V. hd g = Suc i \<and> (\<forall>j < i. V ! j \<noteq> V ! i))"
    by auto
qed

theorem group_duplicates_increasing_witness:
  "[1, 3] \<in> set (group_duplicates [[1, 0], [0, 1 :: int], [1, 0], [0, 1], [2]])
   \<and> sorted_wrt (<) [1, 3 :: nat]
   \<and> (\<exists>i < length [[1, 0], [0, 1 :: int], [1, 0], [0, 1], [2]]. hd [1, 3 :: nat] = Suc i)"
proof -
  let ?V = "[[1, 0], [0, 1 :: int], [1, 0], [0, 1], [2]]"
  have "group_duplicates ?V = [[1, 3], [2, 4]]"
    by code_simp
  then have mem: "[1, 3] \<in> set (group_duplicates ?V)"
    by simp
  with group_duplicates_increasing [of ?V]
  have "sorted_wrt (<) [1, 3 :: nat] \<and>
        (\<exists>i < length ?V. hd [1, 3 :: nat] = Suc i \<and> (\<forall>j < i. ?V ! j \<noteq> ?V ! i))"
    by blast
  with mem show ?thesis
    by blast
qed

subsection \<open>Determinism of the grouper\<close>

text \<open>
  The run relation and the function agree: every collection has a run, and a run returns
  what the function computes.
\<close>

lemma group_loop_run_iff: "group_loop_run groups items final \<longleftrightarrow> final = group_loop groups items"
proof
  show "group_loop_run groups items final \<Longrightarrow> final = group_loop groups items"
    by (induction rule: group_loop_run.induct) (simp_all add: Let_def)
next
  have "group_loop_run groups items (group_loop groups items)"
    by (induction groups items rule: group_loop.induct)
      (auto intro: group_loop_run.intros simp: Let_def)
  then show "final = group_loop groups items \<Longrightarrow> group_loop_run groups items final"
    by simp
qed

lemma group_duplicates_run_iff: "group_duplicates_run V r \<longleftrightarrow> r = group_duplicates V"
  by (auto simp: group_duplicates_run.simps group_loop_run_iff group_duplicates_def)

lemma group_loop_run_determ:
  "group_loop_run groups items final \<Longrightarrow> group_loop_run groups items final' \<Longrightarrow> final' = final"
proof (induction arbitrary: final' rule: group_loop_run.induct)
  case (loop_exit groups)
  then show ?case
    by (auto elim: group_loop_run.cases)
next
  case (loop_body key vec groups rule_num rest final)
  from loop_body.prems loop_body.hyps(1)
  have "group_loop_run (append_at (setdefault groups key []) key rule_num) rest final'"
    by (auto elim: group_loop_run.cases)
  then show ?case
    by (rule loop_body.IH)
qed

text \<open>
  Claim C9: \<open>group_duplicates\<close> is deterministic. Two runs on the same collection of
  vectors return the same list of groups: the same groups in the same order, with the
  same indices in the same order inside each group.
\<close>

theorem group_duplicates_deterministic:
  assumes "group_duplicates_run V r1" and "group_duplicates_run V r2"
  shows "r1 = r2"
proof -
  from assms(1) obtain g1 where g1: "group_loop_run [] (enumerate 1 V) g1"
    and r1: "r1 = [group \<leftarrow> dict_values g1. length group > 1]"
    by (auto elim: group_duplicates_run.cases)
  from assms(2) obtain g2 where g2: "group_loop_run [] (enumerate 1 V) g2"
    and r2: "r2 = [group \<leftarrow> dict_values g2. length group > 1]"
    by (auto elim: group_duplicates_run.cases)
  from g1 g2 have "g2 = g1"
    by (rule group_loop_run_determ)
  with r1 r2 show ?thesis
    by simp
qed

theorem group_duplicates_deterministic_witness:
  "group_duplicates_run [[1, 0], [1, 0], [0, 1 :: int]] (group_duplicates [[1, 0], [1, 0], [0, 1 :: int]])
   \<and> group_duplicates_run [[1, 0], [1, 0], [0, 1 :: int]] [[1, 2]]
   \<and> group_duplicates [[1, 0], [1, 0], [0, 1 :: int]] = [[1, 2]]"
proof -
  let ?V = "[[1, 0], [1, 0], [0, 1 :: int]]"
  have h1: "group_duplicates_run ?V (group_duplicates ?V)"
    by (simp add: group_duplicates_run_iff)
  have stop: "group_loop_run groups [] final" if "groups = final"
    for groups final :: "(int list, nat list) dict"
    using that by (simp add: loop_exit)
  have h2: "group_duplicates_run ?V [[1, 2]]"
    by (rule run_return [where groups = "[([1, 0], [1, 2]), ([0, 1], [3])]"])
      (auto intro!: loop_body stop
        simp: setdefault_def append_at_def dict_values_def tuple_def)
  from group_duplicates_deterministic [OF h1 h2] h1 h2 show ?thesis
    by blast
qed

section \<open>Properties of the encoder\<close>

lemma join_empty_sep: "join [] ss = concat ss"
  by (induction "[] :: string" ss rule: join.induct) simp_all

lemma str_binary: "str 0 = ''0''" "str 1 = ''1''"
  by (simp_all add: str_def str_nat.simps digit_char_def)

lemma length_str_binary: "x \<in> {0, 1} \<Longrightarrow> length (str x) = 1"
  by (auto simp: str_binary)

lemma length_concat_binary:
  "set S \<subseteq> {0, 1} \<Longrightarrow> length (concat (map str S)) = length S"
  by (induction S) (auto simp: str_binary)

text \<open>
  Claim C6: for every sequence of integers the encoder returns the concatenation, in
  order and without separator, of the textual representations of the elements; nothing
  is validated, so \<open>[0,2,1]\<close> encodes to \<open>"021"\<close>; for a sequence of 0s and 1s the
  result is as long as the sequence; and \<open>[0,1,0,1]\<close> encodes to \<open>"0101"\<close>.
\<close>

theorem state_to_binary_string_concat:
  "state_to_binary_string S = concat (map str S)
   \<and> state_to_binary_string [0, 2, 1] = ''021''
   \<and> (set S \<subseteq> {0, 1} \<longrightarrow> length (state_to_binary_string S) = length S)
   \<and> state_to_binary_string [0, 1, 0, 1] = ''0101''"
  by (simp add: state_to_binary_string_def join_empty_sep length_concat_binary
      str_def str_nat.simps digit_char_def)

theorem state_to_binary_string_concat_witness:
  "set [1, 0, 0, 1 :: int] \<subseteq> {0, 1}
   \<and> state_to_binary_string [1, 0, 0, 1] = ''1001''
   \<and> length (state_to_binary_string [1, 0, 0, 1]) = length [1, 0, 0, 1 :: int]"
proof -
  have h: "set [1, 0, 0, 1 :: int] \<subseteq> {0, 1}"
    by simp
  with state_to_binary_string_concat [of "[1, 0, 0, 1]"]
  have "length (state_to_binary_string [1, 0, 0, 1]) = length [1, 0, 0, 1 :: int]"
    by blast
  moreover have "state_to_binary_string [1, 0, 0, 1] = ''1001''"
    by (simp add: state_to_binary_string_def str_binary)
  ultimately show ?thesis
    using h by blast
qed

section \<open>Properties of the summary table\<close>

lemma summary_loop_in_range:
  "n + length inits \<le> length all_results \<Longrightarrow>
   summary_loop all_results (enumerate n inits) stats =
     Inr (stats @ map (\<lambda>(idx, init). spec_summary_record init (frequency_vectors (all_results ! idx)))
                    (enumerate n inits))"
  by (induction inits arbitrary: n stats) (simp_all add: Let_def spec_summary_record_def)

lemma summary_loop_out_of_range:
  "n \<le> length all_results \<Longrightarrow> length all_results < n + length inits \<Longrightarrow>
   summary_loop all_results (enumerate n inits) stats = Inl IndexError"
  by (induction inits arbitrary: n stats) (simp_all add: Let_def)

lemma summary_loop_take:
  "n + length inits \<le> length all_results \<Longrightarrow>
   summary_loop (take (n + length inits) all_results) (enumerate n inits) stats =
   summary_loop all_results (enumerate n inits) stats"
proof -
  assume le: "n + length inits \<le> length all_results"
  have "map (\<lambda>(idx, init). spec_summary_record init
              (frequency_vectors (take (n + length inits) all_results ! idx))) (enumerate n inits) =
        map (\<lambda>(idx, init). spec_summary_record init (frequency_vectors (all_results ! idx)))
              (enumerate n inits)"
    by (rule map_cong) (auto simp: in_set_enumerate_eq)
  with le show ?thesis
    by (simp add: summary_loop_in_range)
qed

lemma summary_table_of_enough_results:
  assumes "length init_states \<le> length all_results"
  shows "fst (create_summary_table init_states all_results opts) =
     Inr (map (\<lambda>(idx, init). spec_summary_record init (frequency_vectors (all_results ! idx)))
            (enumerate 0 init_states))"
  using assms
  by (simp add: create_summary_table_def summary_loop_in_range DataFrame_def)

lemma summary_table_of_missing_results:
  assumes "length all_results < length init_states"
  shows "create_summary_table init_states all_results opts = (Inl IndexError, opts)"
  using assms
  by (simp add: create_summary_table_def summary_loop_out_of_range)

subsection \<open>Sequences of different lengths\<close>

text \<open>
  Counterexample to claim C2 as it is written: with two initial states and one result,
  the loop reads \<open>all_results[1]\<close>, which does not exist. The call raises
  \<open>IndexError\<close> and returns no table, so it does not truncate to the shorter sequence.
\<close>

theorem create_summary_table_length_mismatch_counterexample:
  "length [[0], [1 :: int]] \<noteq> length [\<lparr>frequency_vectors = [[1 :: int], [1]]\<rparr>]
   \<and> fst (create_summary_table [[0], [1]] [\<lparr>frequency_vectors = [[1 :: int], [1]]\<rparr>] Map.empty)
       = Inl IndexError"
  by (simp add: create_summary_table_def)

text \<open>
  Claim C2, as the code has it: when \<open>all_results\<close> is the longer sequence, the surplus
  results are ignored without an error, and the table has one row per initial state (it is
  the table of the first \<open>len(init_states)\<close> results); when \<open>all_results\<close> is the
  shorter sequence, the call raises \<open>IndexError\<close>.
\<close>

theorem create_summary_table_length_mismatch:
  "(length init_states < length all_results \<longrightarrow>
      (\<exists>table. fst (create_summary_table init_states all_results opts) = Inr table
         \<and> length table = length init_states
         \<and> fst (create_summary_table init_states (take (length init_states) all_results) opts)
             = Inr table))
   \<and> (length all_results < length init_states \<longrightarrow>
      fst (create_summary_table init_states all_results opts) = Inl IndexError)"
proof (intro conjI impI)
  assume less: "length init_states < length all_results"
  then have "summary_loop (take (length init_states) all_results) (enumerate 0 init_states) [] =
             summary_loop all_results (enumerate 0 init_states) []"
    using summary_loop_take [of 0 init_states all_results "[]"] by simp
  then have "fst (create_summary_table init_states (take (length init_states) all_results) opts) =
             fst (create_summary_table init_states all_results opts)"
    by (simp add: create_summary_table_def split: sum.splits)
  with less
  show "\<exists>table. fst (create_summary_table init_states all_results opts) = Inr table
         \<and> length table = length init_states
         \<and> fst (create_summary_table init_states (take (length init_states) all_results) opts)
             = Inr table"
    by (simp add: summary_table_of_enough_results)
next
  assume "length all_results < length init_states"
  then show "fst (create_summary_table init_states all_results opts) = Inl IndexError"
    by (simp add: summary_table_of_missing_results)
qed

theorem create_summary_table_length_mismatch_witness:
  "length [[0 :: int]] < length [\<lparr>frequency_vectors = [[1 :: int], [1]]\<rparr>, \<lparr>frequency_vectors = []\<rparr>]
   \<and> (\<exists>table. fst (create_summary_table [[0]]
          [\<lparr>frequency_vectors = [[1 :: int], [1]]\<rparr>, \<lparr>frequency_vectors = []\<rparr>] Map.empty) = Inr table
        \<and> length table = length [[0 :: int]])
   \<and> length [\<lparr>frequency_vectors = [[1 :: int], [1]]\<rparr>] < length [[0], [1 :: int]]
   \<and> fst (create_summary_table [[0], [1]] [\<lparr>frequency_vectors = [[1 :: int], [1]]\<rparr>] Map.empty)
       = Inl IndexError"
proof -
  let ?r = "\<lparr>frequency_vectors = [[1 :: int], [1]]\<rparr>"
  let ?e = "\<lparr>frequency_vectors = ([] :: int list list)\<rparr>"
  have h1: "length [[0 :: int]] < length [?r, ?e]"
    by simp
  have h2: "length [?r] < length [[0], [1 :: int]]"
    by simp
  from h1 create_summary_table_length_mismatch [of "[[0]]" "[?r, ?e]" Map.empty]
  have "\<exists>table. fst (create_summary_table [[0]] [?r, ?e] Map.empty) = Inr table
          \<and> length table = length [[0 :: int]]"
    by blast
  moreover from h2 create_summary_table_length_mismatch [of "[[0], [1]]" "[?r]" Map.empty]
  have "fst (create_summary_table [[0], [1]] [?r] Map.empty) = Inl IndexError"
    by blast
  ultimately show ?thesis
    using h1 h2 by blast
qed

subsection \<open>Sequences of the same length\<close>

text \<open>
  Claim C7: when \<open>init_states\<close> and \<open>all_results\<close> have the same length, the call
  returns a table with one row per initial state, in the order of \<open>init_states\<close>; the
  label of row \<open>i\<close> is the encoding of \<open>init_states[i]\<close>, its groups are
  \<open>group_duplicates\<close> of the frequency vectors of \<open>all_results[i]\<close>, and its group
  count is the number of these groups.
\<close>

theorem create_summary_table_rows_correct:
  assumes "length init_states = length all_results"
  shows "\<exists>table. fst (create_summary_table init_states all_results opts) = Inr table
     \<and> length table = length init_states
     \<and> (\<forall>i < length init_states.
          Initial_State (table ! i) = state_to_binary_string (init_states ! i)
          \<and> Duplicate_Groups (table ! i) = group_duplicates (frequency_vectors (all_results ! i))
          \<and> Group_Count (table ! i) = length (Duplicate_Groups (table ! i)))"
proof -
  let ?table = "map (\<lambda>(idx, init). spec_summary_record init (frequency_vectors (all_results ! idx)))
                  (enumerate 0 init_states)"
  have "fst (create_summary_table init_states all_results opts) = Inr ?table"
    using assms by (simp add: summary_table_of_enough_results)
  moreover have "length ?table = length init_states"
    by simp
  moreover have "?table ! i = spec_summary_record (init_states ! i) (frequency_vectors (all_results ! i))"
    if "i < length init_states" for i
    using that by (simp add: nth_enumerate_eq)
  ultimately show ?thesis
    by (simp add: spec_summary_record_def)
qed

theorem create_summary_table_rows_correct_witness:
  "length [[0, 1], [1, 1 :: int]] = length [\<lparr>frequency_vectors = [[1 :: int], [1]]\<rparr>, \<lparr>frequency_vectors = []\<rparr>]
   \<and> fst (create_summary_table [[0, 1], [1, 1]]
        [\<lparr>frequency_vectors = [[1 :: int], [1]]\<rparr>, \<lparr>frequency_vectors = []\<rparr>] Map.empty)
      = Inr [\<lparr>Initial_State = ''01'', Group_Count = 1, Duplicate_Groups = [[1, 2]]\<rparr>,
             \<lparr>Initial_State = ''11'', Group_Count = 0, Duplicate_Groups = []\<rparr>]"
proof -
  let ?inits = "[[0, 1], [1, 1 :: int]]"
  let ?res = "[\<lparr>frequency_vectors = [[1 :: int], [1]]\<rparr>, \<lparr>frequency_vectors = []\<rparr>]"
  have h: "length ?inits = length ?res"
    by simp
  from create_summary_table_rows_correct [OF h, of Map.empty]
  obtain table where t: "fst (create_summary_table ?inits ?res Map.empty) = Inr table"
    and len: "length table = length ?inits"
    and rows: "\<forall>i < length ?inits.
          Initial_State (table ! i) = state_to_binary_string (?inits ! i)
          \<and> Duplicate_Groups (table ! i) = group_duplicates (frequency_vectors (?res ! i))
          \<and> Group_Count (table ! i) = length (Duplicate_Groups (table ! i))"
    by blast
  from len obtain a b where ab: "table = [a, b]"
    by (cases table; cases "tl table"; cases "tl (tl table)") auto
  have g1: "group_duplicates [[1 :: int], [1]] = [[1, 2]]"
    by code_simp
  have g2: "group_duplicates ([] :: int list list) = []"
    by code_simp
  have s1: "state_to_binary_string [0, 1] = ''01''" "state_to_binary_string [1, 1] = ''11''"
    by (simp_all add: state_to_binary_string_def str_binary)
  from rows have "Initial_State (table ! 0) = state_to_binary_string (?inits ! 0)
          \<and> Duplicate_Groups (table ! 0) = group_duplicates (frequency_vectors (?res ! 0))
          \<and> Group_Count (table ! 0) = length (Duplicate_Groups (table ! 0))"
    by simp
  then have a: "a = \<lparr>Initial_State = ''01'', Group_Count = 1, Duplicate_Groups = [[1, 2]]\<rparr>"
    by (simp add: ab g1 s1)
  from rows have "Initial_State (table ! 1) = state_to_binary_string (?inits ! 1)
          \<and> Duplicate_Groups (table ! 1) = group_duplicates (frequency_vectors (?res ! 1))
          \<and> Group_Count (table ! 1) = length (Duplicate_Groups (table ! 1))"
    by simp
  then have b: "b = \<lparr>Initial_State = ''11'', Group_Count = 0, Duplicate_Groups = []\<rparr>"
    by (simp add: ab g2 s1)
  from t ab a b h show ?thesis
    by simp
qed

subsection \<open>Effects on the process-wide options\<close>

text \<open>
  Counterexample to claim C8 as it is written: a caller that had set \<open>max_colwidth\<close>
  to 100 finds it changed after the call, so the function does mutate process-wide state.
\<close>

theorem create_summary_table_sets_option_counterexample:
  "snd (create_summary_table [[0, 1]] [\<lparr>frequency_vectors = [[1 :: int], [1]]\<rparr>]
          [''max_colwidth'' \<mapsto> 100])
     \<noteq> [''max_colwidth'' \<mapsto> 100]"
proof -
  have "snd (create_summary_table [[0, 1]] [\<lparr>frequency_vectors = [[1 :: int], [1]]\<rparr>]
          [''max_colwidth'' \<mapsto> 100]) ''max_colwidth'' = Some 50"
    by (simp add: create_summary_table_def pd_set_option_def Let_def)
  then show ?thesis
    by (auto dest: fun_cong [where x = "''max_colwidth''"])
qed

text \<open>
  Claim C8, as the code has it: the table does not depend on the process-wide options
  (none is read), and the one effect of a call besides its result is on them: a call that
  returns a table has set \<open>max_colwidth\<close> to 50 and left every other option as it
  was, and a call that raises has changed nothing. The arguments are values the function
  only reads.
\<close>

theorem create_summary_table_effects:
  "fst (create_summary_table init_states all_results opts) =
     fst (create_summary_table init_states all_results opts')
   \<and> snd (create_summary_table init_states all_results opts) =
     (case fst (create_summary_table init_states all_results opts) of
        Inl err \<Rightarrow> opts
      | Inr table \<Rightarrow> opts(''max_colwidth'' \<mapsto> 50))"
  by (simp add: create_summary_table_def pd_set_option_def split: sum.splits)

end
